theory Spec2Isabelle
  imports Main
begin

section \<open>Text and the regular expressions of \<open>fix_background.py\<close>\<close>

text \<open>
  A Python \<open>str\<close> is a sequence of Unicode code points. The script reads the target file
  as UTF-8 text, so the text it works on may hold code points above 255 (the patterns
  themselves contain five of them); a code point is modelled as an integer, as \<open>ord\<close> gives it.
\<close>

type_synonym codepoint = int
type_synonym str = "codepoint list"

definition cps :: "string \<Rightarrow> str" where
  "cps s = map of_char s"

abbreviation NL :: codepoint where "NL \<equiv> 10"
abbreviation SQ :: codepoint where "SQ \<equiv> 39"
abbreviation BT :: codepoint where "BT \<equiv> 96"
abbreviation ROCKET :: codepoint where "ROCKET \<equiv> 128640"
abbreviation PHONE :: codepoint where "PHONE \<equiv> 128241"
abbreviation KEY :: codepoint where "KEY \<equiv> 128273"
abbreviation GLOBE :: codepoint where "GLOBE \<equiv> 127760"
abbreviation CHECK :: codepoint where "CHECK \<equiv> 9989"

text \<open>
  The two patterns use three constructs only: literal text (escaped or not), the
  one-or-more repetition \<open>[^\n]+\<close>, and one capturing group, which in both patterns
  stands at the very start and holds only literal text.
\<close>

datatype item = Lit str | NotNewlinePlus

fun strip_prefix :: "str \<Rightarrow> str \<Rightarrow> str option" where
  "strip_prefix [] s = Some s"
| "strip_prefix (p # ps) [] = None"
| "strip_prefix (p # ps) (c # cs) = (if p = c then strip_prefix ps cs else None)"

text \<open>
  \<open>match_items\<close> matches a sequence of items at the start of the text and returns what
  follows the match. \<open>[^\n]+\<close> is greedy with backtracking, as in Python's \<open>re\<close>: after
  one character that is not a newline it first tries to take one more, and only when
  that fails goes on with the rest of the pattern.
\<close>

fun match_items :: "item list \<Rightarrow> str \<Rightarrow> str option" where
  "match_items [] s = Some s"
| "match_items (Lit l # its) s =
     (case strip_prefix l s of None \<Rightarrow> None | Some r \<Rightarrow> match_items its r)"
| "match_items (NotNewlinePlus # its) [] = None"
| "match_items (NotNewlinePlus # its) (c # cs) =
     (if c = NL then None
      else (case match_items (NotNewlinePlus # its) cs of
              Some r \<Rightarrow> Some r
            | None \<Rightarrow> match_items its cs))"

text \<open>
  A pattern is its group 1 (literal text) and the items after the group. A match gives
  the text of group 1 and the text after the match.
\<close>

type_synonym pattern = "str \<times> item list"

definition re_match :: "pattern \<Rightarrow> str \<Rightarrow> (str \<times> str) option" where
  "re_match p s =
     (case strip_prefix (fst p) s of
        None \<Rightarrow> None
      | Some r \<Rightarrow> (case match_items (snd p) r of
                    None \<Rightarrow> None
                  | Some rest \<Rightarrow> Some (fst p, rest)))"

text \<open>\<open>re.search\<close>: does the pattern match at some position of the text?\<close>

fun re_search :: "pattern \<Rightarrow> str \<Rightarrow> bool" where
  "re_search p [] = (re_match p [] \<noteq> None)"
| "re_search p (c # cs) = (re_match p (c # cs) \<noteq> None \<or> re_search p cs)"

text \<open>
  \<open>re.sub(pattern, repl, string)\<close> with no \<open>count\<close> argument, as both calls of the script
  are written: the text is scanned from the left, every match found is replaced by the
  expanded template, and the scan goes on after the match. A match of no characters is
  replaced too and the scan then moves one character on (neither pattern of the script
  can match the empty text).
\<close>

function re_sub :: "pattern \<Rightarrow> (str \<Rightarrow> str) \<Rightarrow> str \<Rightarrow> str" where
  "re_sub p repl [] = (case re_match p [] of None \<Rightarrow> [] | Some (g, rest) \<Rightarrow> repl g)"
| "re_sub p repl (c # cs) =
     (case re_match p (c # cs) of
        None \<Rightarrow> c # re_sub p repl cs
      | Some (g, rest) \<Rightarrow>
          (if length rest < length (c # cs) then repl g @ re_sub p repl rest
           else repl g @ c # re_sub p repl cs))"
  by pat_completeness auto
termination
  by (relation "measure (\<lambda>(p, repl, s). length s)") auto

section \<open>The script\<close>

subsection \<open>Step A: the removal pass (lines 8 to 15)\<close>

definition alarm_anchor :: str where
  "alarm_anchor = cps ''ALARM_NAME: '' @ [SQ] @ cps ''gradescope_auto_sync'' @ [SQ, NL] @ cps ''};''"

text \<open>The literal starts of the four diagnostic lines, lines 9 to 12 of the script.\<close>

definition log_loaded :: str where
  "log_loaded = cps ''console.log('' @ [SQ, ROCKET] @ cps '' Enhanced background script''"

definition log_extension_id :: str where
  "log_extension_id = cps ''console.log('' @ [BT, PHONE] @ cps '' Extension ID''"

definition log_chrome_client_id :: str where
  "log_chrome_client_id = cps ''console.log('' @ [BT, KEY] @ cps '' Chrome Client ID''"

definition log_web_client_id :: str where
  "log_web_client_id = cps ''console.log('' @ [BT, GLOBE] @ cps '' Web Client ID''"

definition removal_pattern :: pattern where
  "removal_pattern =
     (alarm_anchor,
      [Lit [NL, NL],
       Lit log_loaded, NotNewlinePlus, Lit [NL],
       Lit log_extension_id, NotNewlinePlus, Lit [NL],
       Lit log_chrome_client_id, NotNewlinePlus, Lit [NL],
       Lit log_web_client_id, NotNewlinePlus, Lit [NL]])"

definition removal_repl :: "str \<Rightarrow> str" where
  "removal_repl g1 = g1 @ [NL]"

definition removal_pass :: "str \<Rightarrow> str" where
  "removal_pass content = re_sub removal_pattern removal_repl content"

subsection \<open>Step B: the insertion pass (lines 18 to 26)\<close>

definition firefox_anchor :: str where
  "firefox_anchor =
     cps ''console.log('' @ [SQ, CHECK] @ cps '' Firefox: Modules loaded via manifest.json''
       @ [SQ] @ cps '');'' @ [NL] @ cps ''}''"

definition insertion_pattern :: pattern where
  "insertion_pattern = (firefox_anchor, [])"

definition inserted_block :: str where
  "inserted_block =
     [NL, NL] @ cps ''// Log configuration AFTER polyfill is loaded'' @ [NL]
     @ cps ''console.log('' @ [SQ, ROCKET]
       @ cps '' Enhanced background script with dual authentication loaded'' @ [SQ] @ cps '');'' @ [NL]
     @ cps ''console.log('' @ [BT, PHONE] @ cps '' Extension ID: ${browser.runtime.id}''
       @ [BT] @ cps '');'' @ [NL]
     @ cps ''console.log('' @ [BT, KEY]
       @ cps '' Chrome Client ID: ${CONFIG.CHROME_EXTENSION_CLIENTS[browser.runtime.id] || ''
       @ [SQ] @ cps ''not configured'' @ [SQ] @ cps ''}'' @ [BT] @ cps '');'' @ [NL]
     @ cps ''console.log('' @ [BT, GLOBE] @ cps '' Web Client ID: ${CONFIG.WEB_CLIENT_ID}''
       @ [BT] @ cps '');'' @ [NL]"

definition insertion_repl :: "str \<Rightarrow> str" where
  "insertion_repl g1 = g1 @ inserted_block"

definition insertion_pass :: "str \<Rightarrow> str" where
  "insertion_pass content = re_sub insertion_pattern insertion_repl content"

definition transform :: "str \<Rightarrow> str" where
  "transform content = insertion_pass (removal_pass content)"

subsection \<open>Reading, writing and printing (lines 4 to 5 and 28 to 31)\<close>

text \<open>
  The script names one file, \<open>src/background.js\<close>. The world it runs in is that file,
  if it exists, and what has been printed to standard output. A file is taken at the
  level of Python's text layer: \<open>file_text\<close> is the text that reading the file in text
  mode gives, so the file is assumed to hold valid UTF-8, as the specification assumes
  of the input, and the bytes on disk, with their line endings, are not part of the
  model. \<open>readable\<close> and \<open>writable\<close> say whether the process may open the file for
  reading and for writing. Both errors are subclasses of \<open>OSError\<close>, which \<open>IOError\<close>
  names too.
\<close>

datatype io_error = FileNotFoundError | PermissionError

record text_file =
  file_text :: str
  readable :: bool
  writable :: bool

record world =
  background_js :: "text_file option"
  stdout :: str

text \<open>\<open>open(path, 'r')\<close> followed by \<open>f.read()\<close>.\<close>

definition read_text :: "world \<Rightarrow> io_error + str" where
  "read_text w =
     (case background_js w of
        None \<Rightarrow> Inl FileNotFoundError
      | Some f \<Rightarrow> if readable f then Inr (file_text f) else Inl PermissionError)"

text \<open>
  \<open>open(path, 'w')\<close> followed by \<open>f.write(content)\<close>: opening a file that exists and may
  not be written fails before the file is truncated; opening a file that does not exist
  creates it.
\<close>

definition write_text :: "str \<Rightarrow> world \<Rightarrow> io_error + world" where
  "write_text s w =
     (case background_js w of
        None \<Rightarrow> Inr (w\<lparr>background_js := Some \<lparr>file_text = s, readable = True, writable = True\<rparr>\<rparr>)
      | Some f \<Rightarrow>
          if writable f then Inr (w\<lparr>background_js := Some (f\<lparr>file_text := s\<rparr>)\<rparr>)
          else Inl PermissionError)"

definition print :: "str \<Rightarrow> world \<Rightarrow> world" where
  "print s w = w\<lparr>stdout := stdout w @ s @ [NL]\<rparr>"

definition confirmation :: str where
  "confirmation =
     [CHECK] @ cps '' Fixed background.js - console logs moved after polyfill import''"

text \<open>
  The whole script. An exception that no handler catches ends the run: the world is
  returned as the failing call left it, with the error.
\<close>

definition main :: "world \<Rightarrow> world \<times> (io_error + unit)" where
  "main w =
     (case read_text w of
        Inl e \<Rightarrow> (w, Inl e)
      | Inr content \<Rightarrow>
          (let content = removal_pass content;
               content = insertion_pass content
           in case write_text content w of
                Inl e \<Rightarrow> (w, Inl e)
              | Inr w' \<Rightarrow> (print confirmation w', Inr ())))"

section \<open>Descriptions used by the statements\<close>

text \<open>
  What \<open>[^\n]+\<close> can match: a text that is not empty and holds no newline.
\<close>

definition filler :: "str \<Rightarrow> bool" where
  "filler x = (x \<noteq> [] \<and> NL \<notin> set x)"

text \<open>The four diagnostic lines with given variable parts.\<close>

definition diag_lines :: "str \<Rightarrow> str \<Rightarrow> str \<Rightarrow> str \<Rightarrow> str" where
  "diag_lines x1 x2 x3 x4 =
     log_loaded @ x1 @ [NL] @ log_extension_id @ x2 @ [NL]
     @ log_chrome_client_id @ x3 @ [NL] @ log_web_client_id @ x4 @ [NL]"

text \<open>The pattern matches at no position inside \<open>u\<close> of the text \<open>u @ s\<close>.\<close>

fun no_match_within :: "pattern \<Rightarrow> str \<Rightarrow> str \<Rightarrow> bool" where
  "no_match_within p [] s = True"
| "no_match_within p (c # u) s = (re_match p (c # u @ s) = None \<and> no_match_within p u s)"

text \<open>
  What a replacement of the removal pass takes away: the matched text is replaced by
  its own start \<open>\\1\\n\<close>, so the rest of the matched text is what goes.
\<close>

definition removed_block :: "str \<Rightarrow> str option" where
  "removed_block s =
     (case re_match removal_pattern s of
        None \<Rightarrow> None
      | Some (g, rest) \<Rightarrow>
          Some (drop (length (removal_repl g)) (take (length s - length rest) s)))"

text \<open>
  Replacing only the first match, which is \<open>re.sub\<close> called with \<open>count=1\<close>: the
  specification words Step A this way. The script does not call it.
\<close>

fun re_sub_first :: "pattern \<Rightarrow> (str \<Rightarrow> str) \<Rightarrow> str \<Rightarrow> str" where
  "re_sub_first p repl [] = (case re_match p [] of None \<Rightarrow> [] | Some (g, rest) \<Rightarrow> repl g)"
| "re_sub_first p repl (c # cs) =
     (case re_match p (c # cs) of
        None \<Rightarrow> c # re_sub_first p repl cs
      | Some (g, rest) \<Rightarrow> repl g @ rest)"

text \<open>
  The parts of the inserted template, lines 20 to 24: the comment line, and what each
  inserted diagnostic line holds after the literal start that the removal pattern asks
  for.
\<close>

definition comment_line :: str where
  "comment_line = cps ''// Log configuration AFTER polyfill is loaded''"

definition loaded_tail :: str where
  "loaded_tail = cps '' with dual authentication loaded'' @ [SQ] @ cps '');''"

definition extension_id_tail :: str where
  "extension_id_tail = cps '': ${browser.runtime.id}'' @ [BT] @ cps '');''"

definition chrome_client_id_tail :: str where
  "chrome_client_id_tail =
     cps '': ${CONFIG.CHROME_EXTENSION_CLIENTS[browser.runtime.id] || '' @ [SQ]
     @ cps ''not configured'' @ [SQ] @ cps ''}'' @ [BT] @ cps '');''"

definition web_client_id_tail :: str where
  "web_client_id_tail = cps '': ${CONFIG.WEB_CLIENT_ID}'' @ [BT] @ cps '');''"

definition template_lines :: str where
  "template_lines =
     diag_lines loaded_tail extension_id_tail chrome_client_id_tail web_client_id_tail"

text \<open>Four diagnostic lines that differ from those of the template, for examples.\<close>

definition other_lines :: str where
  "other_lines =
     diag_lines (cps '' loaded'' @ [SQ] @ cps '');'') (cps '': unknown'' @ [BT] @ cps '');'')
       (cps '': none'' @ [BT] @ cps '');'') (cps '': none'' @ [BT] @ cps '');'')"

section \<open>Matching\<close>

lemma strip_prefix_Some_iff: "strip_prefix p s = Some r \<longleftrightarrow> s = p @ r"
  by (induction p s rule: strip_prefix.induct) auto

lemma strip_prefix_append [simp]: "strip_prefix p (p @ r) = Some r"
  by (simp add: strip_prefix_Some_iff)

lemma match_Lit_iff:
  "match_items (Lit l # its) s = Some r \<longleftrightarrow> (\<exists>s'. s = l @ s' \<and> match_items its s' = Some r)"
  by (auto simp: strip_prefix_Some_iff split: option.splits)

lemma filler_Cons: "filler (c # x) \<longleftrightarrow> c \<noteq> NL \<and> (x = [] \<or> filler x)"
  by (auto simp: filler_def)

lemma match_plus_nl_iff:
  "match_items (NotNewlinePlus # Lit [NL] # its) s = Some r \<longleftrightarrow>
     (\<exists>x s'. s = x @ NL # s' \<and> filler x \<and> match_items its s' = Some r)"
proof (induction s arbitrary: r)
  case Nil
  show ?case by simp
next
  case (Cons c cs)
  let ?plus = "NotNewlinePlus # Lit [NL] # its"
  show ?case
  proof (cases "c = NL")
    case True
    have "\<not> (\<exists>x s'. c # cs = x @ NL # s' \<and> filler x \<and> match_items its s' = Some r)"
    proof
      assume "\<exists>x s'. c # cs = x @ NL # s' \<and> filler x \<and> match_items its s' = Some r"
      then obtain x s' where e: "c # cs = x @ NL # s'" and f: "filler x" by blast
      from f obtain y ys where "x = y # ys" by (cases x) (auto simp: filler_def)
      with e f True show False by (auto simp: filler_def)
    qed
    with True show ?thesis by simp
  next
    case False
    show ?thesis
    proof
      assume l: "match_items ?plus (c # cs) = Some r"
      show "\<exists>x s'. c # cs = x @ NL # s' \<and> filler x \<and> match_items its s' = Some r"
      proof (cases "match_items ?plus cs")
        case (Some r')
        with l False have "r' = r" by simp
        with Some Cons.IH[of r] obtain x s' where
          "cs = x @ NL # s'" "filler x" "match_items its s' = Some r" by blast
        with False have "c # cs = (c # x) @ NL # s' \<and> filler (c # x) \<and> match_items its s' = Some r"
          by (simp add: filler_Cons)
        then show ?thesis by blast
      next
        case None
        with l False have "match_items (Lit [NL] # its) cs = Some r" by simp
        then obtain s' where "cs = NL # s'" "match_items its s' = Some r"
          unfolding match_Lit_iff by auto
        with False have "c # cs = [c] @ NL # s' \<and> filler [c] \<and> match_items its s' = Some r"
          by (simp add: filler_def)
        then show ?thesis by blast
      qed
    next
      assume "\<exists>x s'. c # cs = x @ NL # s' \<and> filler x \<and> match_items its s' = Some r"
      then obtain x s' where e: "c # cs = x @ NL # s'" and f: "filler x"
        and m: "match_items its s' = Some r" by blast
      from f obtain x' where x: "x = c # x'" using e by (cases x) (auto simp: filler_def)
      show "match_items ?plus (c # cs) = Some r"
      proof (cases "x' = []")
        case True
        with e x have cs: "cs = NL # s'" by simp
        have "match_items ?plus cs = None"
        proof (cases "match_items ?plus cs")
          case None then show ?thesis .
        next
          case (Some q)
          with Cons.IH[of q] obtain y t where "cs = y @ NL # t" "filler y" by blast
          with cs show ?thesis by (cases y) (auto simp: filler_def)
        qed
        with cs m False show ?thesis by simp
      next
        case nonempty: False
        with e x f have "cs = x' @ NL # s'" "filler x'" by (auto simp: filler_Cons)
        with m Cons.IH[of r] have "match_items ?plus cs = Some r" by blast
        with False show ?thesis by simp
      qed
    qed
  qed
qed

lemma match_line_iff:
  "match_items (Lit l # NotNewlinePlus # Lit [NL] # its) s = Some r \<longleftrightarrow>
     (\<exists>x s'. s = l @ x @ NL # s' \<and> filler x \<and> match_items its s' = Some r)"
  unfolding match_Lit_iff match_plus_nl_iff by auto

lemma re_match_Some_iff:
  "re_match p s = Some (g, rest) \<longleftrightarrow>
     g = fst p \<and> (\<exists>r. s = fst p @ r \<and> match_items (snd p) r = Some rest)"
  by (auto simp: re_match_def strip_prefix_Some_iff split: option.splits)

lemma re_match_removal_iff:
  "re_match removal_pattern s = Some (g, rest) \<longleftrightarrow>
     g = alarm_anchor \<and>
     (\<exists>x1 x2 x3 x4. filler x1 \<and> filler x2 \<and> filler x3 \<and> filler x4 \<and>
        s = alarm_anchor @ [NL, NL] @ diag_lines x1 x2 x3 x4 @ rest)"
proof -
  have its: "match_items (snd removal_pattern) t = Some r \<longleftrightarrow>
     (\<exists>x1 x2 x3 x4. filler x1 \<and> filler x2 \<and> filler x3 \<and> filler x4 \<and>
        t = [NL, NL] @ diag_lines x1 x2 x3 x4 @ r)" for t r
    unfolding removal_pattern_def snd_conv match_Lit_iff[of "[NL, NL]"] match_line_iff diag_lines_def
    by simp blast
  have fstp: "fst removal_pattern = alarm_anchor" by (simp add: removal_pattern_def)
  show ?thesis
    unfolding re_match_Some_iff its fstp by simp blast
qed

section \<open>Substitution\<close>

lemma re_sub_absent: "\<not> re_search p s \<Longrightarrow> re_sub p repl s = s"
  by (induction s) (auto split: option.splits)

lemma re_sub_head:
  "re_match p s = Some (g, rest) \<Longrightarrow> length rest < length s \<Longrightarrow>
     re_sub p repl s = repl g @ re_sub p repl rest"
  by (cases s) auto

lemma re_sub_skip: "no_match_within p u s \<Longrightarrow> re_sub p repl (u @ s) = u @ re_sub p repl s"
  by (induction u) auto

lemma re_search_append: "re_search p s \<Longrightarrow> re_search p (u @ s)"
  by (induction u) auto

lemma re_search_iff:
  "re_search p s \<longleftrightarrow> (\<exists>u v. s = u @ v \<and> re_match p v \<noteq> None)"
proof
  show "re_search p s \<Longrightarrow> \<exists>u v. s = u @ v \<and> re_match p v \<noteq> None"
  proof (induction s)
    case Nil
    then show ?case by simp
  next
    case (Cons c cs)
    show ?case
    proof (cases "re_match p (c # cs) = None")
      case True
      with Cons obtain u v where "cs = u @ v" "re_match p v \<noteq> None" by auto
      then have "c # cs = (c # u) @ v \<and> re_match p v \<noteq> None" by simp
      then show ?thesis by blast
    next
      case False
      then have "c # cs = [] @ (c # cs) \<and> re_match p (c # cs) \<noteq> None" by simp
      then show ?thesis by blast
    qed
  qed
next
  assume "\<exists>u v. s = u @ v \<and> re_match p v \<noteq> None"
  then obtain u v where s: "s = u @ v" and m: "re_match p v \<noteq> None" by blast
  from m have "re_search p v" by (cases v) auto
  with s show "re_search p s" by (simp add: re_search_append)
qed

section \<open>The insertion pass\<close>

lemma re_match_insertion_iff:
  "re_match insertion_pattern s = Some (g, rest) \<longleftrightarrow> g = firefox_anchor \<and> s = firefox_anchor @ rest"
  by (auto simp: re_match_Some_iff insertion_pattern_def)

lemma firefox_anchor_hd: "\<exists>t. firefox_anchor = 99 # t \<and> 99 \<notin> set t"
  by (simp add: firefox_anchor_def cps_def)

lemma firefox_no_overlap:
  assumes "w @ firefox_anchor @ v = firefox_anchor @ r" and "w \<noteq> []"
  shows "\<exists>z. w = firefox_anchor @ z"
proof -
  from firefox_anchor_hd obtain t where fa: "firefox_anchor = 99 # t" and nt: "99 \<notin> set t" by blast
  from assms(1) have "\<exists>z. (w = firefox_anchor @ z \<and> z @ firefox_anchor @ v = r) \<or>
      (w @ z = firefox_anchor \<and> firefox_anchor @ v = z @ r)"
    by (simp add: append_eq_append_conv2) 
  then obtain z where z: "(w = firefox_anchor @ z \<and> z @ firefox_anchor @ v = r) \<or>
      (w @ z = firefox_anchor \<and> firefox_anchor @ v = z @ r)" by blast
  show ?thesis
  proof (cases "w = firefox_anchor @ z")
    case True then show ?thesis by blast
  next
    case False
    with z have a: "w @ z = firefox_anchor" and b: "firefox_anchor @ v = z @ r" by auto
    show ?thesis
    proof (cases z)
      case Nil
      with a show ?thesis by simp
    next
      case (Cons y ys)
      from b Cons have "firefox_anchor @ v = y # ys @ r" by simp
      then have "99 # t @ v = y # ys @ r" unfolding fa by simp
      then have "y = 99" by simp
      from assms(2) obtain c w' where w: "w = c # w'" by (cases w) auto
      from a have "w @ z = 99 # t" unfolding fa .
      then have "t = w' @ y # ys" unfolding w Cons by simp
      with \<open>y = 99\<close> nt show ?thesis by simp
    qed
  qed
qed

lemma insertion_match_shorter:
  "re_match insertion_pattern s = Some (g, rest) \<Longrightarrow> length rest < length s"
  using firefox_anchor_hd by (auto simp: re_match_insertion_iff)

lemma insertion_pass_head:
  "insertion_pass (firefox_anchor @ v) = firefox_anchor @ inserted_block @ insertion_pass v"
proof -
  have m: "re_match insertion_pattern (firefox_anchor @ v) = Some (firefox_anchor, v)"
    by (simp add: re_match_insertion_iff)
  show ?thesis
    unfolding insertion_pass_def
    using re_sub_head[OF m insertion_match_shorter[OF m]]
    by (simp add: insertion_repl_def)
qed

lemma insertion_pass_Nil: "insertion_pass [] = []"
proof -
  have "re_match insertion_pattern [] = None"
  proof (cases "re_match insertion_pattern []")
    case (Some a)
    then show ?thesis using insertion_match_shorter[of "[]" "fst a" "snd a"] by simp
  qed simp
  then show ?thesis by (simp add: insertion_pass_def)
qed

lemma insertion_pass_split:
  "insertion_pass (u @ firefox_anchor @ v) =
     insertion_pass u @ firefox_anchor @ inserted_block @ insertion_pass v"
proof (induction "length u" arbitrary: u rule: less_induct)
  case less
  show ?case
  proof (cases u)
    case Nil
    then show ?thesis by (simp add: insertion_pass_head insertion_pass_Nil)
  next
    case (Cons c u')
    show ?thesis
    proof (cases "re_match insertion_pattern (u @ firefox_anchor @ v)")
      case None
      have "re_match insertion_pattern u = None"
      proof (cases "re_match insertion_pattern u")
        case (Some a)
        then have "u = firefox_anchor @ snd a" using re_match_insertion_iff[of u "fst a" "snd a"] by simp
        then have "re_match insertion_pattern (u @ firefox_anchor @ v)
                     = Some (firefox_anchor, snd a @ firefox_anchor @ v)"
          using re_match_insertion_iff[of "u @ firefox_anchor @ v" firefox_anchor "snd a @ firefox_anchor @ v"]
          by simp
        with None show ?thesis by simp
      qed simp
      with None Cons less(1)[of u'] show ?thesis
        by (simp add: insertion_pass_def)
    next
      case (Some a)
      then have e: "u @ firefox_anchor @ v = firefox_anchor @ snd a"
        using re_match_insertion_iff[of "u @ firefox_anchor @ v" "fst a" "snd a"] by simp
      from Cons have "u \<noteq> []" by simp
      from firefox_no_overlap[OF e this] obtain z where z: "u = firefox_anchor @ z" by blast
      have "length z < length u" using z firefox_anchor_hd by auto
      from less(1)[OF this] z show ?thesis
        by (simp add: insertion_pass_head)
    qed
  qed
qed

lemma insertion_pass_length: "length s \<le> length (insertion_pass s)"
proof (induction "length s" arbitrary: s rule: less_induct)
  case less
  show ?case
  proof (cases s)
    case Nil
    then show ?thesis by simp
  next
    case (Cons c cs)
    show ?thesis
    proof (cases "re_match insertion_pattern s")
      case None
      with Cons less(1)[of cs] show ?thesis by (simp add: insertion_pass_def)
    next
      case (Some a)
      then have e: "s = firefox_anchor @ snd a"
        using re_match_insertion_iff[of s "fst a" "snd a"] by simp
      have "length (snd a) < length s" using e firefox_anchor_hd by auto
      from less(1)[OF this] show ?thesis
        by (subst (2) e) (simp add: insertion_pass_head e)
    qed
  qed
qed

lemma re_search_insertion_iff:
  "re_search insertion_pattern s \<longleftrightarrow> (\<exists>u v. s = u @ firefox_anchor @ v)"
proof -
  have "re_match insertion_pattern v \<noteq> None \<longleftrightarrow> (\<exists>r. v = firefox_anchor @ r)" for v
    using re_match_insertion_iff[of v] by auto
  then show ?thesis unfolding re_search_iff by auto
qed

lemma inserted_block_nonempty: "inserted_block \<noteq> []"
  by (simp add: inserted_block_def)

lemma insertion_pass_longer:
  assumes "re_search insertion_pattern s"
  shows "length s < length (insertion_pass s)"
proof -
  from assms obtain u v where s: "s = u @ firefox_anchor @ v"
    unfolding re_search_insertion_iff by blast
  have "length inserted_block > 0" using inserted_block_nonempty by simp
  with insertion_pass_length[of u] insertion_pass_length[of v]
  show ?thesis unfolding s insertion_pass_split length_append by linarith
qed

lemma re_search_insertion_pass:
  "re_search insertion_pattern (insertion_pass s) = re_search insertion_pattern s"
proof (cases "re_search insertion_pattern s")
  case True
  then obtain u v where s: "s = u @ firefox_anchor @ v"
    unfolding re_search_insertion_iff by blast
  have "re_search insertion_pattern (insertion_pass s)"
    unfolding s insertion_pass_split re_search_insertion_iff by blast
  with True show ?thesis by simp
next
  case False
  then show ?thesis by (simp add: insertion_pass_def re_sub_absent)
qed

section \<open>The removal pass\<close>

lemma alarm_anchor_hd: "\<exists>t. alarm_anchor = 65 # t"
  by (simp add: alarm_anchor_def cps_def)

lemma removal_match_shorter:
  "re_match removal_pattern s = Some (g, rest) \<Longrightarrow> length rest < length s"
  unfolding re_match_removal_iff by auto

lemma removal_pass_head:
  assumes "filler x1" "filler x2" "filler x3" "filler x4"
  shows "removal_pass (alarm_anchor @ [NL, NL] @ diag_lines x1 x2 x3 x4 @ rest)
           = alarm_anchor @ [NL] @ removal_pass rest"
proof -
  let ?s = "alarm_anchor @ [NL, NL] @ diag_lines x1 x2 x3 x4 @ rest"
  have m: "re_match removal_pattern ?s = Some (alarm_anchor, rest)"
    unfolding re_match_removal_iff using assms by blast
  show ?thesis
    unfolding removal_pass_def
    using re_sub_head[OF m removal_match_shorter[OF m]]
    by (simp add: removal_repl_def)
qed

lemma removal_pass_skip:
  "no_match_within removal_pattern u s \<Longrightarrow> removal_pass (u @ s) = u @ removal_pass s"
  by (simp add: removal_pass_def re_sub_skip)

lemma removal_match_starts:
  "re_match removal_pattern s \<noteq> None \<Longrightarrow> \<exists>t. s = 65 # t"
proof -
  assume "re_match removal_pattern s \<noteq> None"
  then obtain g rest where "re_match removal_pattern s = Some (g, rest)" by auto
  then obtain r where r: "s = alarm_anchor @ r" unfolding re_match_removal_iff by auto
  from alarm_anchor_hd obtain t where "alarm_anchor = 65 # t" by blast
  then have "s = 65 # (t @ r)" unfolding r by simp
  then show ?thesis by blast
qed

lemma no_match_within_removal:
  "65 \<notin> set u \<Longrightarrow> no_match_within removal_pattern u s"
proof (induction u)
  case Nil
  show ?case by simp
next
  case (Cons c u)
  have "re_match removal_pattern (c # u @ s) = None"
  proof (rule ccontr)
    assume "re_match removal_pattern (c # u @ s) \<noteq> None"
    from removal_match_starts[OF this] Cons.prems show False by simp
  qed
  with Cons show ?case by simp
qed

lemma firefox_anchor_no_A: "65 \<notin> set firefox_anchor"
  by (simp add: firefox_anchor_def cps_def)

lemma removal_pass_firefox:
  "removal_pass (firefox_anchor @ s) = firefox_anchor @ removal_pass s"
  by (simp add: removal_pass_skip no_match_within_removal firefox_anchor_no_A)

section \<open>Shared facts about the script\<close>

lemma inserted_block_eq:
  "inserted_block = [NL, NL] @ comment_line @ [NL] @ template_lines"
  by (simp add: inserted_block_def comment_line_def template_lines_def diag_lines_def
      log_loaded_def log_extension_id_def log_chrome_client_id_def log_web_client_id_def
      loaded_tail_def extension_id_tail_def chrome_client_id_tail_def web_client_id_tail_def cps_def)

lemma template_fillers:
  "filler loaded_tail" "filler extension_id_tail" "filler chrome_client_id_tail" "filler web_client_id_tail"
  by (simp_all add: filler_def loaded_tail_def extension_id_tail_def chrome_client_id_tail_def
      web_client_id_tail_def cps_def)

lemma main_completes_prints:
  "snd (main w) = Inr () \<Longrightarrow> stdout (fst (main w)) = stdout w @ confirmation @ [NL]"
  by (auto simp: main_def read_text_def write_text_def print_def Let_def
      split: sum.splits option.splits if_splits)

lemma transform_absent:
  "\<not> re_search removal_pattern s \<Longrightarrow> \<not> re_search insertion_pattern s \<Longrightarrow> transform s = s"
  by (simp add: transform_def removal_pass_def insertion_pass_def re_sub_absent)

lemma line_eq:
  "NL \<notin> set x \<Longrightarrow> NL \<notin> set y \<Longrightarrow> x @ NL # a = y @ NL # b \<Longrightarrow> x = y \<and> a = b"
proof (induction x arbitrary: y)
  case Nil
  then show ?case by (cases y) auto
next
  case (Cons c x)
  then show ?case by (cases y) auto
qed

lemma diag_lines_inject:
  assumes "filler x1" "filler x2" "filler x3" "filler x4"
    and "filler y1" "filler y2" "filler y3" "filler y4"
  shows "diag_lines x1 x2 x3 x4 @ r = diag_lines y1 y2 y3 y4 @ r' \<longleftrightarrow>
           x1 = y1 \<and> x2 = y2 \<and> x3 = y3 \<and> x4 = y4 \<and> r = r'"
proof
  assume e: "diag_lines x1 x2 x3 x4 @ r = diag_lines y1 y2 y3 y4 @ r'"
  let ?a2 = "log_extension_id @ x2 @ NL # log_chrome_client_id @ x3 @ NL # log_web_client_id @ x4 @ NL # r"
  let ?b2 = "log_extension_id @ y2 @ NL # log_chrome_client_id @ y3 @ NL # log_web_client_id @ y4 @ NL # r'"
  from e have "x1 @ NL # ?a2 = y1 @ NL # ?b2" by (simp add: diag_lines_def)
  with assms(1,5) have 1: "x1 = y1" and "?a2 = ?b2" using line_eq[of x1 y1 ?a2 ?b2] by (auto simp: filler_def)
  let ?a3 = "log_chrome_client_id @ x3 @ NL # log_web_client_id @ x4 @ NL # r"
  let ?b3 = "log_chrome_client_id @ y3 @ NL # log_web_client_id @ y4 @ NL # r'"
  from \<open>?a2 = ?b2\<close> have "x2 @ NL # ?a3 = y2 @ NL # ?b3" by simp
  with assms(2,6) have 2: "x2 = y2" and "?a3 = ?b3" using line_eq[of x2 y2 ?a3 ?b3] by (auto simp: filler_def)
  let ?a4 = "log_web_client_id @ x4 @ NL # r"
  let ?b4 = "log_web_client_id @ y4 @ NL # r'"
  from \<open>?a3 = ?b3\<close> have "x3 @ NL # ?a4 = y3 @ NL # ?b4" by simp
  with assms(3,7) have 3: "x3 = y3" and "?a4 = ?b4" using line_eq[of x3 y3 ?a4 ?b4] by (auto simp: filler_def)
  from \<open>?a4 = ?b4\<close> have "x4 @ NL # r = y4 @ NL # r'" by simp
  with assms(4,8) have 4: "x4 = y4" and "r = r'" using line_eq[of x4 y4 r r'] by (auto simp: filler_def)
  from 1 2 3 4 \<open>r = r'\<close> show "x1 = y1 \<and> x2 = y2 \<and> x3 = y3 \<and> x4 = y4 \<and> r = r'" by simp
next
  assume "x1 = y1 \<and> x2 = y2 \<and> x3 = y3 \<and> x4 = y4 \<and> r = r'"
  then show "diag_lines x1 x2 x3 x4 @ r = diag_lines y1 y2 y3 y4 @ r'" by simp
qed

lemma removed_block_eq:
  assumes "filler x1" "filler x2" "filler x3" "filler x4"
  shows "removed_block (alarm_anchor @ [NL, NL] @ diag_lines x1 x2 x3 x4 @ rest)
           = Some (NL # diag_lines x1 x2 x3 x4)"
proof -
  let ?s = "alarm_anchor @ [NL, NL] @ diag_lines x1 x2 x3 x4 @ rest"
  have m: "re_match removal_pattern ?s = Some (alarm_anchor, rest)"
    unfolding re_match_removal_iff using assms by blast
  have "take (length ?s - length rest) ?s = alarm_anchor @ [NL, NL] @ diag_lines x1 x2 x3 x4"
    by simp
  then show ?thesis
    unfolding removed_block_def m by (simp add: removal_repl_def)
qed

lemma no_match_within_inserted_block:
  "no_match_within insertion_pattern inserted_block s"
  by (simp add: inserted_block_def cps_def re_match_def insertion_pattern_def firefox_anchor_def)

lemma insertion_pass_inserted_block:
  "insertion_pass (inserted_block @ s) = inserted_block @ insertion_pass s"
  by (simp add: insertion_pass_def re_sub_skip no_match_within_inserted_block)

lemma insertion_pass_twice_split:
  "insertion_pass (insertion_pass (u @ firefox_anchor @ v)) =
     insertion_pass (insertion_pass u) @ firefox_anchor @ inserted_block @ inserted_block
       @ insertion_pass (insertion_pass v)"
  by (simp add: insertion_pass_split insertion_pass_inserted_block)

lemma after_newline_step:
  assumes "NL \<notin> set p" and "q = [] \<or> hd q = 99"
    and "\<forall>a c b. q = a @ NL # c # b \<longrightarrow> c = 99"
  shows "\<forall>a c b. p @ NL # q = a @ NL # c # b \<longrightarrow> c = 99"
proof (intro allI impI)
  fix a c b
  assume e: "p @ NL # q = a @ NL # c # b"
  then obtain us where us: "(p = a @ us \<and> us @ NL # q = NL # c # b) \<or>
      (p @ us = a \<and> NL # q = us @ NL # c # b)"
    unfolding append_eq_append_conv2 by blast
  show "c = 99"
  proof (cases us)
    case Nil
    with us have "q = c # b" by auto
    with assms(2) show ?thesis by auto
  next
    case (Cons x xs)
    show ?thesis
    proof (cases "p = a @ us \<and> us @ NL # q = NL # c # b")
      case True
      with Cons have "x = NL" "p = a @ x # xs" by auto
      with assms(1) show ?thesis by simp
    next
      case False
      with us Cons have "NL # q = (x # xs) @ NL # c # b" by auto
      then have "q = xs @ NL # c # b" by simp
      with assms(3) show ?thesis by blast
    qed
  qed
qed


lemma literal_lines:
  "NL \<notin> set log_loaded" "NL \<notin> set log_extension_id"
  "NL \<notin> set log_chrome_client_id" "NL \<notin> set log_web_client_id"
  "hd (log_loaded @ s) = 99" "hd (log_extension_id @ s) = 99"
  "hd (log_chrome_client_id @ s) = 99" "hd (log_web_client_id @ s) = 99"
  by (simp_all add: log_loaded_def log_extension_id_def log_chrome_client_id_def
      log_web_client_id_def cps_def)

lemma diag_lines_after_newline:
  assumes "filler y1" "filler y2" "filler y3" "filler y4"
  shows "\<forall>a c b. NL # diag_lines y1 y2 y3 y4 = a @ NL # c # b \<longrightarrow> c = 99"
proof -
  let ?q4 = "(log_web_client_id @ y4) @ NL # []"
  let ?q3 = "(log_chrome_client_id @ y3) @ NL # ?q4"
  let ?q2 = "(log_extension_id @ y2) @ NL # ?q3"
  let ?q1 = "(log_loaded @ y1) @ NL # ?q2"
  have n: "NL \<notin> set (log_loaded @ y1)" "NL \<notin> set (log_extension_id @ y2)"
    "NL \<notin> set (log_chrome_client_id @ y3)" "NL \<notin> set (log_web_client_id @ y4)"
    using assms by (simp_all add: filler_def literal_lines)
  have h: "hd ?q1 = 99" "hd ?q2 = 99" "hd ?q3 = 99" "hd ?q4 = 99"
    using literal_lines(5-8) by simp_all
  have s4: "\<forall>a c b. ?q4 = a @ NL # c # b \<longrightarrow> c = 99"
    by (rule after_newline_step[OF n(4)]) simp_all
  have s3: "\<forall>a c b. ?q3 = a @ NL # c # b \<longrightarrow> c = 99"
    by (rule after_newline_step[OF n(3) disjI2[OF h(4)] s4])
  have s2: "\<forall>a c b. ?q2 = a @ NL # c # b \<longrightarrow> c = 99"
    by (rule after_newline_step[OF n(2) disjI2[OF h(3)] s3])
  have s1: "\<forall>a c b. ?q1 = a @ NL # c # b \<longrightarrow> c = 99"
    by (rule after_newline_step[OF n(1) disjI2[OF h(2)] s2])
  have e: "NL \<notin> set ([]::str)" by simp
  have s0: "\<forall>a c b. [] @ NL # ?q1 = a @ NL # c # b \<longrightarrow> c = 99"
    by (rule after_newline_step[OF e disjI2[OF h(1)] s1])
  have "NL # diag_lines y1 y2 y3 y4 = [] @ NL # ?q1" by (simp add: diag_lines_def)
  with s0 show ?thesis by simp
qed

lemma firefox_anchor_last: "\<exists>f. firefox_anchor = f @ [NL, 125]"
proof -
  have "firefox_anchor = butlast (butlast firefox_anchor) @ [NL, 125]"
    by (simp add: firefox_anchor_def cps_def)
  then show ?thesis by blast
qed

lemma diag_lines_before_firefox:
  assumes "filler y1" "filler y2" "filler y3" "filler y4"
    and e: "NL # diag_lines y1 y2 y3 y4 @ r = mid @ firefox_anchor @ X"
  shows "\<exists>r'. mid @ firefox_anchor @ Y = NL # diag_lines y1 y2 y3 y4 @ r'"
proof -
  let ?D = "NL # diag_lines y1 y2 y3 y4"
  from e have "?D @ r = mid @ (firefox_anchor @ X)" by simp
  then obtain us where us: "(?D = mid @ us \<and> us @ r = firefox_anchor @ X) \<or>
      (?D @ us = mid \<and> r = us @ firefox_anchor @ X)"
    unfolding append_eq_append_conv2 by blast
  show ?thesis
  proof (cases "?D @ us = mid \<and> r = us @ firefox_anchor @ X")
    case True
    then have "mid @ firefox_anchor @ Y = ?D @ (us @ firefox_anchor @ Y)" by auto
    then show ?thesis by (metis append_Cons)
  next
    case False
    with us have d: "?D = mid @ us" and u: "us @ r = firefox_anchor @ X" by auto
    from u obtain ws where ws: "(us = firefox_anchor @ ws \<and> ws @ r = X) \<or>
        (us @ ws = firefox_anchor \<and> r = ws @ X)"
      unfolding append_eq_append_conv2 by blast
    show ?thesis
    proof (cases "us @ ws = firefox_anchor \<and> r = ws @ X")
      case True
      then have "firefox_anchor = us @ ws" by simp
      then have "mid @ firefox_anchor @ Y = (mid @ us) @ (ws @ Y)" by simp
      also have "\<dots> = ?D @ (ws @ Y)" using d by simp
      finally show ?thesis by (metis append_Cons)
    next
      case False
      with ws have w: "us = firefox_anchor @ ws" by auto
      from firefox_anchor_last obtain f where f: "firefox_anchor = f @ [NL, 125]" by blast
      have "?D = (mid @ f) @ NL # 125 # ws" unfolding d w f by simp
      with diag_lines_after_newline[OF assms(1-4)] have "(125::int) = 99" by blast
      then show ?thesis by simp
    qed
  qed
qed

lemma removal_match_before_firefox:
  assumes "re_match removal_pattern (alarm_anchor @ [NL] @ mid @ firefox_anchor @ Y) = None"
  shows "re_match removal_pattern (alarm_anchor @ [NL] @ mid @ firefox_anchor @ X) = None"
proof (cases "re_match removal_pattern (alarm_anchor @ [NL] @ mid @ firefox_anchor @ X)")
  case None
  then show ?thesis .
next
  case (Some a)
  then have "re_match removal_pattern (alarm_anchor @ [NL] @ mid @ firefox_anchor @ X)
      = Some (fst a, snd a)" by simp
  then obtain y1 y2 y3 y4 where f: "filler y1" "filler y2" "filler y3" "filler y4"
    and e: "alarm_anchor @ [NL] @ mid @ firefox_anchor @ X
             = alarm_anchor @ [NL, NL] @ diag_lines y1 y2 y3 y4 @ snd a"
    unfolding re_match_removal_iff by blast
  from e have "NL # diag_lines y1 y2 y3 y4 @ snd a = mid @ firefox_anchor @ X" by simp
  from diag_lines_before_firefox[OF f this] obtain r' where
    "mid @ firefox_anchor @ Y = NL # diag_lines y1 y2 y3 y4 @ r'" by blast
  then have "alarm_anchor @ [NL] @ mid @ firefox_anchor @ Y
      = alarm_anchor @ [NL, NL] @ diag_lines y1 y2 y3 y4 @ r'" by simp
  with f have "re_match removal_pattern (alarm_anchor @ [NL] @ mid @ firefox_anchor @ Y)
      = Some (alarm_anchor, r')"
    unfolding re_match_removal_iff by blast
  with assms show ?thesis by simp
qed


section \<open>The claims\<close>

text \<open>
  C5. Each substitution pass is the identity when its pattern is absent: if the removal
  pattern matches nowhere in the text, the removal pass returns the text unchanged, and
  if the insertion anchor pattern matches nowhere, the insertion pass returns the text
  unchanged.
\<close>

theorem passes_identity_when_absent:
  "(\<not> re_search removal_pattern s \<longrightarrow> removal_pass s = s) \<and>
   (\<not> re_search insertion_pattern s \<longrightarrow> insertion_pass s = s)"
  by (simp add: removal_pass_def insertion_pass_def re_sub_absent)

theorem passes_identity_when_absent_witness:
  "\<not> re_search removal_pattern (cps ''let x = 1;'') \<and>
   \<not> re_search insertion_pattern (cps ''let x = 1;'') \<and>
   removal_pass (cps ''let x = 1;'') = cps ''let x = 1;'' \<and>
   insertion_pass (cps ''let x = 1;'') = cps ''let x = 1;''"
proof -
  have a: "\<not> re_search removal_pattern (cps ''let x = 1;'')" by code_simp
  have b: "\<not> re_search insertion_pattern (cps ''let x = 1;'')" by code_simp
  show ?thesis using a b passes_identity_when_absent[of "cps ''let x = 1;''"] by blast
qed

text \<open>
  C4. When neither pattern occurs in the text of the file, the transformation returns
  the text unchanged, and the run on a readable and writable file completes: the file
  keeps its text and the confirmation line is printed, the one line every completed run
  prints.
\<close>

theorem no_pattern_no_change:
  assumes "\<not> re_search removal_pattern s" and "\<not> re_search insertion_pattern s"
    and "background_js w = Some f" and "file_text f = s" and "readable f" and "writable f"
  shows "transform s = s \<and>
         main w = (w\<lparr>stdout := stdout w @ confirmation @ [NL]\<rparr>, Inr ())"
proof -
  have t: "transform s = s" using assms(1,2) by (rule transform_absent)
  then have "insertion_pass (removal_pass (file_text f)) = file_text f"
    using assms(4) by (simp add: transform_def)
  moreover have "f\<lparr>file_text := file_text f\<rparr> = f" by simp
  ultimately have "main w = (w\<lparr>stdout := stdout w @ confirmation @ [NL]\<rparr>, Inr ())"
    using assms(3,5,6) by (simp add: main_def read_text_def write_text_def print_def)
  with t show ?thesis by simp
qed

theorem no_pattern_no_change_witness:
  "\<not> re_search removal_pattern (cps ''let x = 1;'') \<and>
   \<not> re_search insertion_pattern (cps ''let x = 1;'') \<and>
   transform (cps ''let x = 1;'') = cps ''let x = 1;'' \<and>
   main \<lparr>background_js = Some \<lparr>file_text = cps ''let x = 1;'', readable = True, writable = True\<rparr>, stdout = []\<rparr> =
     (\<lparr>background_js = Some \<lparr>file_text = cps ''let x = 1;'', readable = True, writable = True\<rparr>,
       stdout = confirmation @ [NL]\<rparr>, Inr ())"
proof -
  have a: "\<not> re_search removal_pattern (cps ''let x = 1;'')" by code_simp
  have b: "\<not> re_search insertion_pattern (cps ''let x = 1;'')" by code_simp
  show ?thesis
    using a b no_pattern_no_change[OF a b, of "\<lparr>background_js = Some \<lparr>file_text = cps ''let x = 1;'', readable = True, writable = True\<rparr>, stdout = []\<rparr>"
        "\<lparr>file_text = cps ''let x = 1;'', readable = True, writable = True\<rparr>"]
    by simp
qed

text \<open>
  C6. When the target file does not exist or may not be read, the run fails with an
  I/O error (\<open>FileNotFoundError\<close> or \<open>PermissionError\<close>) before any write: the world,
  the file and the standard output, is as it was.
\<close>

theorem missing_or_unreadable_fails_before_write:
  assumes "background_js w = None \<or> (\<exists>f. background_js w = Some f \<and> \<not> readable f)"
  shows "main w = (w, Inl (if background_js w = None then FileNotFoundError else PermissionError))"
  using assms by (auto simp: main_def read_text_def)

theorem missing_or_unreadable_fails_before_write_witness:
  "main \<lparr>background_js = None, stdout = []\<rparr> =
     (\<lparr>background_js = None, stdout = []\<rparr>, Inl FileNotFoundError)"
  using missing_or_unreadable_fails_before_write[of "\<lparr>background_js = None, stdout = []\<rparr>"]
  by simp

text \<open>
  C7. When the target file may be read but not written, the read succeeds, the
  transformation is computed, the write fails with \<open>PermissionError\<close>, and the world is as
  it was: the text of the file is not modified.
\<close>

theorem unwritable_fails_at_write:
  assumes "background_js w = Some f" and "readable f" and "\<not> writable f"
  shows "read_text w = Inr (file_text f) \<and>
         write_text (transform (file_text f)) w = Inl PermissionError \<and>
         main w = (w, Inl PermissionError)"
  using assms by (simp add: main_def read_text_def write_text_def transform_def)

theorem unwritable_fails_at_write_witness:
  "read_text \<lparr>background_js = Some \<lparr>file_text = cps ''let x = 1;'', readable = True, writable = False\<rparr>, stdout = []\<rparr> = Inr (cps ''let x = 1;'') \<and>
   main \<lparr>background_js = Some \<lparr>file_text = cps ''let x = 1;'', readable = True, writable = False\<rparr>, stdout = []\<rparr> =
     (\<lparr>background_js = Some \<lparr>file_text = cps ''let x = 1;'', readable = True, writable = False\<rparr>, stdout = []\<rparr>, Inl PermissionError)"
  using unwritable_fails_at_write[of "\<lparr>background_js = Some \<lparr>file_text = cps ''let x = 1;'', readable = True, writable = False\<rparr>, stdout = []\<rparr>"
      "\<lparr>file_text = cps ''let x = 1;'', readable = True, writable = False\<rparr>"]
  by simp

text \<open>
  C8. Every run that completes without an I/O failure has printed exactly one line, the
  fixed confirmation line, after what standard output held before, whether or not the
  text was transformed.
\<close>

theorem completed_run_prints_confirmation:
  assumes "snd (main w) = Inr ()"
  shows "stdout (fst (main w)) = stdout w @ confirmation @ [NL]"
  using assms by (rule main_completes_prints)

theorem completed_run_prints_confirmation_witness:
  "snd (main \<lparr>background_js = Some \<lparr>file_text = cps ''let x = 1;'', readable = True, writable = True\<rparr>, stdout = []\<rparr>) = Inr () \<and>
   stdout (fst (main \<lparr>background_js = Some \<lparr>file_text = cps ''let x = 1;'', readable = True, writable = True\<rparr>, stdout = []\<rparr>)) = confirmation @ [NL]"
proof -
  have h: "snd (main \<lparr>background_js = Some \<lparr>file_text = cps ''let x = 1;'', readable = True, writable = True\<rparr>, stdout = []\<rparr>) = Inr ()"
    by (simp add: main_def read_text_def write_text_def print_def)
  show ?thesis using h completed_run_prints_confirmation[OF h] by simp
qed

text \<open>
  C10. The insertion pass is global, not replace-first: wherever the Firefox-loaded
  anchor stands in the text, the output holds the anchor followed by the inserted block
  there, and the texts before and after it are treated the same way; so with two
  occurrences a copy of the block follows each.
\<close>

theorem insertion_is_global:
  "insertion_pass (u @ firefox_anchor @ v) =
     insertion_pass u @ firefox_anchor @ inserted_block @ insertion_pass v \<and>
   insertion_pass (u @ firefox_anchor @ v @ firefox_anchor @ w) =
     insertion_pass u @ firefox_anchor @ inserted_block @ insertion_pass v
       @ firefox_anchor @ inserted_block @ insertion_pass w"
proof -
  have "insertion_pass (u @ firefox_anchor @ (v @ firefox_anchor @ w)) =
          insertion_pass u @ firefox_anchor @ inserted_block @ insertion_pass (v @ firefox_anchor @ w)"
    by (rule insertion_pass_split)
  then show ?thesis by (simp add: insertion_pass_split)
qed

theorem insertion_is_global_witness:
  "insertion_pass (cps ''a'' @ firefox_anchor @ cps ''b'' @ firefox_anchor @ cps ''c'') =
     cps ''a'' @ firefox_anchor @ inserted_block @ cps ''b''
       @ firefox_anchor @ inserted_block @ cps ''c''"
proof -
  have a: "insertion_pass (cps ''a'') = cps ''a''" by code_simp
  have b: "insertion_pass (cps ''b'') = cps ''b''" by code_simp
  have c: "insertion_pass (cps ''c'') = cps ''c''" by code_simp
  show ?thesis
    using insertion_is_global[of "cps ''a''" "cps ''b''" "cps ''c''"] a b c by simp
qed

text \<open>
  C1 (as the code has it). The removal pass is global, not replace-first: \<open>re.sub\<close> is
  called without \<open>count\<close>, so every match found by the scan from the left is replaced.
  When the pattern occurs twice, with no match starting before the first occurrence or
  between the two, both occurrences lose their diagnostic block.
\<close>

theorem removal_is_global:
  assumes "filler x1" "filler x2" "filler x3" "filler x4"
    and "filler y1" "filler y2" "filler y3" "filler y4"
    and "no_match_within removal_pattern pre
           (alarm_anchor @ [NL, NL] @ diag_lines x1 x2 x3 x4 @ mid
              @ alarm_anchor @ [NL, NL] @ diag_lines y1 y2 y3 y4 @ rest)"
    and "no_match_within removal_pattern mid
           (alarm_anchor @ [NL, NL] @ diag_lines y1 y2 y3 y4 @ rest)"
  shows "removal_pass
           (pre @ alarm_anchor @ [NL, NL] @ diag_lines x1 x2 x3 x4 @ mid
              @ alarm_anchor @ [NL, NL] @ diag_lines y1 y2 y3 y4 @ rest)
         = pre @ alarm_anchor @ [NL] @ mid @ alarm_anchor @ [NL] @ removal_pass rest"
proof -
  let ?m2 = "alarm_anchor @ [NL, NL] @ diag_lines y1 y2 y3 y4 @ rest"
  let ?m1 = "alarm_anchor @ [NL, NL] @ diag_lines x1 x2 x3 x4 @ mid @ ?m2"
  have "removal_pass (pre @ ?m1) = pre @ removal_pass ?m1"
    using assms(9) by (rule removal_pass_skip)
  also have "removal_pass ?m1 = alarm_anchor @ [NL] @ removal_pass (mid @ ?m2)"
    using assms(1-4) by (rule removal_pass_head)
  also have "removal_pass (mid @ ?m2) = mid @ removal_pass ?m2"
    using assms(10) by (rule removal_pass_skip)
  also have "removal_pass ?m2 = alarm_anchor @ [NL] @ removal_pass rest"
    using assms(5-8) by (rule removal_pass_head)
  finally show ?thesis by simp
qed

theorem removal_is_global_witness:
  "removal_pass
     (cps ''a'' @ alarm_anchor @ [NL, NL]
        @ diag_lines loaded_tail extension_id_tail chrome_client_id_tail web_client_id_tail
        @ cps ''b'' @ alarm_anchor @ [NL, NL]
        @ diag_lines (cps ''1'') (cps ''2'') (cps ''3'') (cps ''4'') @ cps ''c'')
   = cps ''a'' @ alarm_anchor @ [NL] @ cps ''b'' @ alarm_anchor @ [NL] @ cps ''c''"
proof -
  have f: "filler (cps ''1'')" "filler (cps ''2'')" "filler (cps ''3'')" "filler (cps ''4'')"
    by (simp_all add: filler_def cps_def)
  have a: "no_match_within removal_pattern (cps ''a'') s" for s
    by (rule no_match_within_removal) (simp add: cps_def)
  have b: "no_match_within removal_pattern (cps ''b'') s" for s
    by (rule no_match_within_removal) (simp add: cps_def)
  have c: "removal_pass (cps ''c'') = cps ''c''" by code_simp
  show ?thesis
    using removal_is_global[OF template_fillers f a b, of "cps ''c''"] c by simp
qed

text \<open>
  The claim as the specification states it (only the first occurrence is replaced, a
  later one is left unchanged) fails on a text that holds the occurrence twice.
\<close>

theorem removal_is_global_counterexample:
  "removal_pass (alarm_anchor @ [NL, NL] @ template_lines @ alarm_anchor @ [NL, NL] @ template_lines)
     = alarm_anchor @ [NL] @ alarm_anchor @ [NL] \<and>
   re_sub_first removal_pattern removal_repl
       (alarm_anchor @ [NL, NL] @ template_lines @ alarm_anchor @ [NL, NL] @ template_lines)
     = alarm_anchor @ [NL] @ alarm_anchor @ [NL, NL] @ template_lines \<and>
   removal_pass (alarm_anchor @ [NL, NL] @ template_lines @ alarm_anchor @ [NL, NL] @ template_lines)
     \<noteq> re_sub_first removal_pattern removal_repl
       (alarm_anchor @ [NL, NL] @ template_lines @ alarm_anchor @ [NL, NL] @ template_lines)"
  by code_simp

text \<open>
  C2 (as the code has it). For a text whose output holds no occurrence of the removal
  pattern, the second run removes nothing: its removal pass returns the output of the
  first run unchanged, so the second run is the insertion pass alone. It is a no-op if
  and only if the first run inserted nothing, that is, the insertion anchor did not
  occur after the removal pass of the first run. Otherwise it inserts the diagnostic
  block again after every Firefox-loaded anchor: wherever the anchor stood after the
  removal pass of the first run, the first output holds the anchor and one block, the
  second output holds the anchor and two blocks, and the texts before and after the
  anchor have gone through the insertion pass once and twice.
\<close>

theorem second_run_reinserts:
  assumes "\<not> re_search removal_pattern (transform t)"
  shows "removal_pass (transform t) = transform t
       \<and> transform (transform t) = insertion_pass (transform t)
       \<and> (transform (transform t) = transform t)
           = (\<not> re_search insertion_pattern (removal_pass t))
       \<and> (removal_pass t = u @ firefox_anchor @ v \<longrightarrow>
            transform t
              = insertion_pass u @ firefox_anchor @ inserted_block @ insertion_pass v
          \<and> transform (transform t)
              = insertion_pass (insertion_pass u) @ firefox_anchor @ inserted_block
                  @ inserted_block @ insertion_pass (insertion_pass v))"
proof -
  have r: "removal_pass (transform t) = transform t"
    using assms by (simp add: removal_pass_def re_sub_absent)
  then have tt: "transform (transform t) = insertion_pass (transform t)"
    by (simp add: transform_def)
  have iff: "(transform (transform t) = transform t)
           = (\<not> re_search insertion_pattern (removal_pass t))"
  proof (cases "re_search insertion_pattern (removal_pass t)")
    case True
    then have "re_search insertion_pattern (transform t)"
      by (simp add: transform_def re_search_insertion_pass)
    then have "length (transform t) < length (insertion_pass (transform t))"
      by (rule insertion_pass_longer)
    then have "insertion_pass (transform t) \<noteq> transform t" by auto
    with True tt show ?thesis by simp
  next
    case False
    then have "transform t = removal_pass t"
      by (simp add: transform_def insertion_pass_def re_sub_absent)
    with False tt show ?thesis by (simp add: insertion_pass_def re_sub_absent)
  qed
  have again: "removal_pass t = u @ firefox_anchor @ v \<longrightarrow>
            transform t
              = insertion_pass u @ firefox_anchor @ inserted_block @ insertion_pass v
          \<and> transform (transform t)
              = insertion_pass (insertion_pass u) @ firefox_anchor @ inserted_block
                  @ inserted_block @ insertion_pass (insertion_pass v)"
  proof
    assume e: "removal_pass t = u @ firefox_anchor @ v"
    have 1: "transform t
        = insertion_pass u @ firefox_anchor @ inserted_block @ insertion_pass v"
      unfolding transform_def e by (rule insertion_pass_split)
    have "transform (transform t) = insertion_pass (insertion_pass (u @ firefox_anchor @ v))"
      unfolding tt unfolding transform_def e ..
    then have 2: "transform (transform t)
        = insertion_pass (insertion_pass u) @ firefox_anchor @ inserted_block
            @ inserted_block @ insertion_pass (insertion_pass v)"
      by (simp only: insertion_pass_twice_split)
    from 1 2 show "transform t
              = insertion_pass u @ firefox_anchor @ inserted_block @ insertion_pass v
          \<and> transform (transform t)
              = insertion_pass (insertion_pass u) @ firefox_anchor @ inserted_block
                  @ inserted_block @ insertion_pass (insertion_pass v)" by simp
  qed
  from r tt iff again show ?thesis by blast
qed


theorem second_run_reinserts_witness:
  "\<not> re_search removal_pattern
       (transform (cps ''a'' @ firefox_anchor @ cps ''b'' @ firefox_anchor @ cps ''c'')) \<and>
   removal_pass (cps ''a'' @ firefox_anchor @ cps ''b'' @ firefox_anchor @ cps ''c'')
     = cps ''a'' @ firefox_anchor @ cps ''b'' @ firefox_anchor @ cps ''c'' \<and>
   transform (cps ''a'' @ firefox_anchor @ cps ''b'' @ firefox_anchor @ cps ''c'')
     = cps ''a'' @ firefox_anchor @ inserted_block @ cps ''b'' @ firefox_anchor
         @ inserted_block @ cps ''c'' \<and>
   transform (transform (cps ''a'' @ firefox_anchor @ cps ''b'' @ firefox_anchor @ cps ''c''))
     = cps ''a'' @ firefox_anchor @ inserted_block @ inserted_block @ cps ''b''
         @ firefox_anchor @ inserted_block @ inserted_block @ cps ''c''"
proof -
  let ?t = "cps ''a'' @ firefox_anchor @ cps ''b'' @ firefox_anchor @ cps ''c''"
  have h: "\<not> re_search removal_pattern (transform ?t)" by code_simp
  have e: "removal_pass ?t = cps ''a'' @ firefox_anchor @ (cps ''b'' @ firefox_anchor @ cps ''c'')"
    by code_simp
  have a: "insertion_pass (cps ''a'') = cps ''a''" by code_simp
  have b: "insertion_pass (cps ''b'') = cps ''b''" by code_simp
  have c: "insertion_pass (cps ''c'') = cps ''c''" by code_simp
  have v: "insertion_pass (cps ''b'' @ firefox_anchor @ cps ''c'')
      = cps ''b'' @ firefox_anchor @ inserted_block @ cps ''c''"
    by (simp add: insertion_pass_split b c)
  have vv: "insertion_pass (cps ''b'' @ firefox_anchor @ inserted_block @ cps ''c'')
      = cps ''b'' @ firefox_anchor @ inserted_block @ inserted_block @ cps ''c''"
    by (simp add: insertion_pass_split insertion_pass_inserted_block b c)
  have imp: "transform ?t
        = insertion_pass (cps ''a'') @ firefox_anchor @ inserted_block
            @ insertion_pass (cps ''b'' @ firefox_anchor @ cps ''c'')
      \<and> transform (transform ?t)
        = insertion_pass (insertion_pass (cps ''a'')) @ firefox_anchor @ inserted_block
            @ inserted_block
            @ insertion_pass (insertion_pass (cps ''b'' @ firefox_anchor @ cps ''c''))"
    using second_run_reinserts[OF h, of "cps ''a''" "cps ''b'' @ firefox_anchor @ cps ''c''"] e
    by blast
  have t1: "transform ?t
      = cps ''a'' @ firefox_anchor @ inserted_block @ cps ''b'' @ firefox_anchor
          @ inserted_block @ cps ''c''"
    using conjunct1[OF imp] unfolding a v by simp
  have t2: "transform (transform ?t)
      = cps ''a'' @ firefox_anchor @ inserted_block @ inserted_block @ cps ''b''
          @ firefox_anchor @ inserted_block @ inserted_block @ cps ''c''"
    using conjunct2[OF imp] unfolding a v vv by simp
  from h e t1 t2 show ?thesis by blast
qed


text \<open>
  The claim as the specification states it (the transformation is idempotent) fails on
  the expected input: the second run inserts the block a second time.
\<close>

theorem second_run_counterexample:
  "transform (alarm_anchor @ [NL, NL] @ template_lines @ firefox_anchor)
     = alarm_anchor @ [NL] @ firefox_anchor @ inserted_block \<and>
   transform (transform (alarm_anchor @ [NL, NL] @ template_lines @ firefox_anchor))
     = alarm_anchor @ [NL] @ firefox_anchor @ inserted_block @ inserted_block \<and>
   transform (transform (alarm_anchor @ [NL, NL] @ template_lines @ firefox_anchor))
     \<noteq> transform (alarm_anchor @ [NL, NL] @ template_lines @ firefox_anchor)"
  by code_simp

text \<open>
  C3 (as the code has it). Round trip: the input is some text, the alarm-name anchor,
  an empty line, four diagnostic lines, some text, the Firefox-loaded anchor and some
  text. When the removal pattern matches at no position before the Firefox anchor other
  than at this alarm-name anchor, the Firefox anchor does not occur earlier, and the
  four diagnostic lines are not followed by an empty line and a second group of four
  diagnostic lines (the removal pattern does not match the alarm-name anchor put before
  the text that follows the four lines), the output is the same text with the empty
  line and the four lines taken away after the alarm-name anchor (the removal pattern
  no longer matches there) and with the inserted block, an empty line, a comment line
  and the four lines of the template, right after the Firefox anchor; the text after it
  is transformed in the same way.
\<close>

theorem round_trip:
  assumes "filler x1" "filler x2" "filler x3" "filler x4"
    and "no_match_within removal_pattern pre
           (alarm_anchor @ [NL, NL] @ diag_lines x1 x2 x3 x4 @ mid @ firefox_anchor @ post)"
    and "no_match_within removal_pattern mid (firefox_anchor @ post)"
    and "\<not> re_search insertion_pattern (pre @ alarm_anchor @ [NL] @ mid)"
    and "re_match removal_pattern (alarm_anchor @ [NL] @ mid @ firefox_anchor @ post) = None"
  shows "transform (pre @ alarm_anchor @ [NL, NL] @ diag_lines x1 x2 x3 x4 @ mid
                      @ firefox_anchor @ post)
           = pre @ alarm_anchor @ [NL] @ mid @ firefox_anchor @ inserted_block @ transform post
         \<and> re_match removal_pattern
             (alarm_anchor @ [NL] @ mid @ firefox_anchor @ inserted_block @ transform post) = None
         \<and> inserted_block = [NL, NL] @ comment_line @ [NL] @ template_lines"
proof -
  let ?rest = "mid @ firefox_anchor @ post"
  let ?m = "alarm_anchor @ [NL, NL] @ diag_lines x1 x2 x3 x4 @ ?rest"
  have "removal_pass (pre @ ?m) = pre @ removal_pass ?m"
    using assms(5) by (rule removal_pass_skip)
  also have "removal_pass ?m = alarm_anchor @ [NL] @ removal_pass ?rest"
    using assms(1-4) by (rule removal_pass_head)
  also have "removal_pass ?rest = mid @ removal_pass (firefox_anchor @ post)"
    using assms(6) by (rule removal_pass_skip)
  also have "removal_pass (firefox_anchor @ post) = firefox_anchor @ removal_pass post"
    by (rule removal_pass_firefox)
  finally have r: "removal_pass (pre @ ?m)
      = (pre @ alarm_anchor @ [NL] @ mid) @ firefox_anchor @ removal_pass post" by simp
  have i: "insertion_pass (pre @ alarm_anchor @ [NL] @ mid) = pre @ alarm_anchor @ [NL] @ mid"
    using assms(7) by (simp add: insertion_pass_def re_sub_absent)
  have t: "transform (pre @ ?m)
      = pre @ alarm_anchor @ [NL] @ mid @ firefox_anchor @ inserted_block @ transform post"
    unfolding transform_def r insertion_pass_split i by simp
  have n: "re_match removal_pattern
      (alarm_anchor @ [NL] @ mid @ firefox_anchor @ inserted_block @ transform post) = None"
    using assms(8) by (rule removal_match_before_firefox)
  from t n inserted_block_eq show ?thesis by simp
qed


theorem round_trip_witness:
  "transform (cps ''a'' @ alarm_anchor @ [NL, NL]
               @ diag_lines loaded_tail extension_id_tail chrome_client_id_tail web_client_id_tail
               @ ([NL] @ cps ''b'') @ firefox_anchor @ cps ''c'')
     = cps ''a'' @ alarm_anchor @ [NL] @ ([NL] @ cps ''b'') @ firefox_anchor @ inserted_block
         @ cps ''c''
   \<and> re_match removal_pattern
       (alarm_anchor @ [NL] @ ([NL] @ cps ''b'') @ firefox_anchor @ inserted_block @ cps ''c'')
       = None"
proof -
  have a: "no_match_within removal_pattern (cps ''a'') s" for s
    by (rule no_match_within_removal) (simp add: cps_def)
  have b: "no_match_within removal_pattern ([NL] @ cps ''b'') s" for s
    by (rule no_match_within_removal) (simp add: cps_def)
  have s: "\<not> re_search insertion_pattern (cps ''a'' @ alarm_anchor @ [NL] @ ([NL] @ cps ''b''))"
    by code_simp
  have h: "re_match removal_pattern
      (alarm_anchor @ [NL] @ ([NL] @ cps ''b'') @ firefox_anchor @ cps ''c'') = None"
    by code_simp
  have c: "transform (cps ''c'') = cps ''c''" by code_simp
  show ?thesis
    using round_trip[OF template_fillers a b s h] c by simp
qed


text \<open>
  The claim as the specification states it, for every text that holds the alarm-name
  anchor with its four lines and the Firefox anchor, fails when a second group of the
  four lines follows the first after an empty line: the removal takes the first group
  and the second then stands right after the alarm-name anchor, where the removal
  pattern matches again.
\<close>

theorem round_trip_counterexample:
  "transform (alarm_anchor @ [NL, NL] @ template_lines @ [NL] @ template_lines @ firefox_anchor)
     = alarm_anchor @ [NL, NL] @ template_lines @ firefox_anchor @ inserted_block \<and>
   re_match removal_pattern
     (transform (alarm_anchor @ [NL, NL] @ template_lines @ [NL] @ template_lines @ firefox_anchor))
     = Some (alarm_anchor, firefox_anchor @ inserted_block)"
  by code_simp

text \<open>
  C9 (as the code has it). The block that the insertion pass puts in is a fixed text
  that does not depend on what the removal pass took away: an empty line, a comment
  line, and four diagnostic lines that start with the same four literal texts as the
  removed lines. What the removal pass takes away at a match is a newline and four such
  lines with any variable parts that are not empty and hold no newline; the removed
  lines equal the inserted lines exactly when their variable parts are those of the
  template.
\<close>

theorem inserted_block_vs_removed:
  assumes "re_match removal_pattern s = Some (g, rest)"
  shows "\<exists>x1 x2 x3 x4. filler x1 \<and> filler x2 \<and> filler x3 \<and> filler x4 \<and>
           removed_block s = Some (NL # diag_lines x1 x2 x3 x4) \<and>
           inserted_block = [NL, NL] @ comment_line @ [NL]
             @ diag_lines loaded_tail extension_id_tail chrome_client_id_tail web_client_id_tail \<and>
           filler loaded_tail \<and> filler extension_id_tail \<and>
           filler chrome_client_id_tail \<and> filler web_client_id_tail \<and>
           (diag_lines x1 x2 x3 x4
              = diag_lines loaded_tail extension_id_tail chrome_client_id_tail web_client_id_tail)
           = (x1 = loaded_tail \<and> x2 = extension_id_tail \<and>
              x3 = chrome_client_id_tail \<and> x4 = web_client_id_tail)"
proof -
  from assms obtain x1 x2 x3 x4 where f: "filler x1" "filler x2" "filler x3" "filler x4"
    and s: "s = alarm_anchor @ [NL, NL] @ diag_lines x1 x2 x3 x4 @ rest"
    unfolding re_match_removal_iff by blast
  have r: "removed_block s = Some (NL # diag_lines x1 x2 x3 x4)"
    unfolding s using f by (rule removed_block_eq)
  have i: "(diag_lines x1 x2 x3 x4
              = diag_lines loaded_tail extension_id_tail chrome_client_id_tail web_client_id_tail)
           = (x1 = loaded_tail \<and> x2 = extension_id_tail \<and>
              x3 = chrome_client_id_tail \<and> x4 = web_client_id_tail)"
    using diag_lines_inject[OF f template_fillers, of "[]" "[]"] by simp
  from f r i template_fillers inserted_block_eq[unfolded template_lines_def]
  show ?thesis by blast
qed

theorem inserted_block_vs_removed_witness:
  "re_match removal_pattern (alarm_anchor @ [NL, NL] @ other_lines @ firefox_anchor)
     = Some (alarm_anchor, firefox_anchor) \<and>
   (\<exists>x1 x2 x3 x4. filler x1 \<and> filler x2 \<and> filler x3 \<and> filler x4 \<and>
           removed_block (alarm_anchor @ [NL, NL] @ other_lines @ firefox_anchor)
             = Some (NL # diag_lines x1 x2 x3 x4) \<and>
           inserted_block = [NL, NL] @ comment_line @ [NL]
             @ diag_lines loaded_tail extension_id_tail chrome_client_id_tail web_client_id_tail \<and>
           filler loaded_tail \<and> filler extension_id_tail \<and>
           filler chrome_client_id_tail \<and> filler web_client_id_tail \<and>
           (diag_lines x1 x2 x3 x4
              = diag_lines loaded_tail extension_id_tail chrome_client_id_tail web_client_id_tail)
           = (x1 = loaded_tail \<and> x2 = extension_id_tail \<and>
              x3 = chrome_client_id_tail \<and> x4 = web_client_id_tail))"
proof -
  have h: "re_match removal_pattern (alarm_anchor @ [NL, NL] @ other_lines @ firefox_anchor)
     = Some (alarm_anchor, firefox_anchor)" by code_simp
  show ?thesis using h inserted_block_vs_removed[OF h] by blast
qed

text \<open>
  The claim as the specification states it fails when the removed lines have other
  variable parts than the template: the lines put in are then not the lines taken away.
\<close>

theorem inserted_block_vs_removed_counterexample:
  "re_search removal_pattern (alarm_anchor @ [NL, NL] @ other_lines @ firefox_anchor) \<and>
   re_search insertion_pattern (alarm_anchor @ [NL, NL] @ other_lines @ firefox_anchor) \<and>
   removed_block (alarm_anchor @ [NL, NL] @ other_lines @ firefox_anchor)
     = Some (NL # other_lines) \<and>
   inserted_block = [NL, NL] @ comment_line @ [NL] @ template_lines \<and>
   other_lines \<noteq> template_lines"
  by code_simp

end
